theory Spec2Isabelle
  imports Main "HOL-Library.Sublist"
begin

section \<open>Python strings\<close>

text \<open>
  The program is \<^verbatim>\<open>display-structure.py\<close>. Its strings are modelled as \<^typ>\<open>string\<close>;
  a \<^typ>\<open>char\<close> stands for a code point below 256, and \<^term>\<open>length\<close> is Python's
  \<^verbatim>\<open>len\<close>. Integers are \<^typ>\<open>int\<close> (Python's are unbounded).
\<close>

abbreviation (input) quote :: char where
  "quote \<equiv> CHR 0x27"

abbreviation (input) newline :: char where
  "newline \<equiv> CHR 0x0A"

abbreviation (input) tab :: char where
  "tab \<equiv> CHR 0x09"

abbreviation (input) esc :: char where
  "esc \<equiv> CHR 0x1B"

text \<open>\<^verbatim>\<open>str.isspace\<close> on one character, which is what \<^verbatim>\<open>str.strip()\<close> removes.\<close>

definition is_space :: "char \<Rightarrow> bool" where
  "is_space c = (let n = (of_char c :: nat) in
     (9 \<le> n \<and> n \<le> 13) \<or> (28 \<le> n \<and> n \<le> 32) \<or> n = 133 \<or> n = 160)"

definition py_strip :: "string \<Rightarrow> string" where
  "py_strip s = rev (dropWhile is_space (rev (dropWhile is_space s)))"

text \<open>\<^verbatim>\<open>s.split(sep)\<close> for a separator of one character: one field more than separators.\<close>

fun py_split :: "char \<Rightarrow> string \<Rightarrow> string list" where
  "py_split sep [] = [[]]"
| "py_split sep (c # cs) =
     (let r = py_split sep cs in
      if c = sep then [] # r else (c # hd r) # tl r)"

text \<open>\<^verbatim>\<open>sub in s\<close> on strings.\<close>

fun py_contains :: "string \<Rightarrow> string \<Rightarrow> bool" where
  "py_contains sub [] = (sub = [])"
| "py_contains sub (c # cs) = (prefix sub (c # cs) \<or> py_contains sub cs)"

text \<open>\<^verbatim>\<open>s.endswith(t)\<close> is \<^term>\<open>suffix t s\<close>, \<^verbatim>\<open>s.startswith(t)\<close> is \<^term>\<open>prefix t s\<close>.\<close>

text \<open>\<^verbatim>\<open>c * n\<close> for a character and an integer: empty when \<open>n\<close> is negative.\<close>

definition py_repeat :: "char \<Rightarrow> int \<Rightarrow> string" where
  "py_repeat c n = replicate (nat n) c"

definition py_ljust :: "string \<Rightarrow> int \<Rightarrow> string" where
  "py_ljust s n = s @ py_repeat CHR '' '' (n - int (length s))"

text \<open>\<^verbatim>\<open>str.lower\<close>: the letters A-Z and the upper-case letters of Latin-1.\<close>

definition py_lower_char :: "char \<Rightarrow> char" where
  "py_lower_char c = (let n = (of_char c :: nat) in
     if (65 \<le> n \<and> n \<le> 90) \<or> (192 \<le> n \<and> n \<le> 222 \<and> n \<noteq> 215)
     then char_of (n + 32) else c)"

definition py_lower :: "string \<Rightarrow> string" where
  "py_lower s = map py_lower_char s"

text \<open>The slice \<^verbatim>\<open>xs[1:-1]\<close>.\<close>

definition inner_fields :: "'a list \<Rightarrow> 'a list" where
  "inner_fields xs = butlast (tl xs)"

section \<open>Enumerated-type declarations\<close>

text \<open>
  \<^verbatim>\<open>re.findall(r"'[^']*'", s)\<close>: scanning from the left, a quote that has a later quote
  opens a match that ends at the next quote, and the scan resumes after it; at any other
  position the scan moves one character on.
\<close>

function findall_quoted :: "string \<Rightarrow> string list" where
  "findall_quoted [] = []"
| "findall_quoted (c # cs) =
     (if c = quote then
        (case dropWhile (\<lambda>x. x \<noteq> quote) cs of
           [] \<Rightarrow> findall_quoted cs
         | _ # rest \<Rightarrow>
             (quote # takeWhile (\<lambda>x. x \<noteq> quote) cs @ [quote]) # findall_quoted rest)
      else findall_quoted cs)"
  by pat_completeness auto
termination
proof (relation "measure length")
  fix c :: char and cs x21 x22
  assume "dropWhile (\<lambda>x. x \<noteq> quote) cs = x21 # x22"
  then have "length (x21 # x22) \<le> length cs"
    using length_dropWhile_le [of "\<lambda>x. x \<noteq> quote" cs] by simp
  then show "(x22, c # cs) \<in> measure length" by simp
qed auto

text \<open>
  Group 1 of \<^verbatim>\<open>re.search(r'enum\((.*)\)', s)\<close>. The dot does not match a newline and the
  star is greedy: after \<^verbatim>\<open>enum(\<close> the group runs to the last \<^verbatim>\<open>)\<close> before the next
  newline. The search takes the leftmost position where that succeeds.
\<close>

definition greedy_group :: "string \<Rightarrow> string option" where
  "greedy_group t = (let l = takeWhile (\<lambda>x. x \<noteq> newline) t in
     if CHR '')'' \<in> set l
     then Some (rev (tl (dropWhile (\<lambda>x. x \<noteq> CHR '')'') (rev l))))
     else None)"

fun search_enum :: "string \<Rightarrow> string option" where
  "search_enum [] = None"
| "search_enum (c # cs) =
     (if prefix ''enum('' (c # cs) then
        (case greedy_group (drop 5 (c # cs)) of
           Some g \<Rightarrow> Some g
         | None \<Rightarrow> search_enum cs)
      else search_enum cs)"

definition get_enum_values :: "string \<Rightarrow> string list" where
  "get_enum_values enum_str =
     (case search_enum enum_str of
        None \<Rightarrow> []
      | Some enum_content \<Rightarrow> findall_quoted enum_content)"

text \<open>
  The loop of \<^verbatim>\<open>format_enum\<close> over \<^verbatim>\<open>enum_values[1:]\<close>, with its two variables
  \<^verbatim>\<open>lines\<close> and \<^verbatim>\<open>current_line\<close>. The value at index \<open>i\<close> gets a comma when
  \<open>i < len(enum_values) - 1\<close>, that is when values remain after it.
\<close>

fun pack_values :: "int \<Rightarrow> string list \<Rightarrow> string list \<Rightarrow> string \<Rightarrow> string list \<times> string" where
  "pack_values column_width [] lines current_line = (lines, current_line)"
| "pack_values column_width (v # vs) lines current_line =
     (let val = (if vs \<noteq> [] then v @ '','' else v) in
      if current_line = [] then pack_values column_width vs lines val
      else if int (length (current_line @ '' '' @ val)) > column_width
      then pack_values column_width vs (lines @ [current_line]) val
      else pack_values column_width vs lines (current_line @ '' '' @ val))"

definition close_last :: "string list \<Rightarrow> string list" where
  "close_last lines =
     (if lines \<noteq> [] then
        (if suffix '','' (last lines)
         then butlast lines @ [butlast (last lines) @ '')'']
         else butlast lines @ [last lines @ '')''])
      else lines)"

definition format_enum :: "string \<Rightarrow> int \<Rightarrow> string list" where
  "format_enum enum_str column_width =
     (let enum_values = get_enum_values enum_str in
      if enum_values = [] then [enum_str]
      else
        let first_line = ''enum('' @ hd enum_values @
              (if length enum_values > 1 then '','' else '''');
            (lines, current_line) =
              pack_values column_width (tl enum_values) [first_line] [];
            lines = (if current_line \<noteq> [] then lines @ [current_line] else lines)
        in close_last lines)"

section \<open>Parsing\<close>

text \<open>
  \<^verbatim>\<open>parse_mysql_table(lines, filter_columns)\<close>. The search for the header line
  carries the index of \<^verbatim>\<open>enumerate\<close>.
\<close>

fun find_header :: "string list \<Rightarrow> nat \<Rightarrow> nat option" where
  "find_header [] i = None"
| "find_header (line # rest) i =
     (if prefix ''| Field'' line then Some i else find_header rest (Suc i))"

text \<open>\<^verbatim>\<open>[c.strip() for c in line.split('|')[1:-1]]\<close>\<close>

definition split_cells :: "string \<Rightarrow> string list" where
  "split_cells line = map py_strip (inner_fields (py_split CHR ''|'' line))"

text \<open>The loop over \<^verbatim>\<open>lines[header_line + 2:]\<close> with its two \<^verbatim>\<open>continue\<close>s.\<close>

fun pipe_rows :: "string list \<Rightarrow> string list list" where
  "pipe_rows [] = []"
| "pipe_rows (l # ls) =
     (if prefix ''+--'' l then pipe_rows ls
      else if py_strip l = [] then pipe_rows ls
      else split_cells l # pipe_rows ls)"

text \<open>The loop over \<^verbatim>\<open>lines[1:]\<close> of the tab-delimited format.\<close>

fun tab_rows :: "string list \<Rightarrow> string list list" where
  "tab_rows [] = []"
| "tab_rows (l # ls) =
     (if py_strip l = [] then tab_rows ls
      else py_split tab l # tab_rows ls)"

text \<open>
  Headers and data as read, for a non-empty \<open>lines\<close>; \<open>None\<close> is the early return when
  no header line is found.
\<close>

definition read_table :: "string list \<Rightarrow> (string list \<times> string list list) option" where
  "read_table lines =
     (if tab \<in> set (hd lines) then
        Some (py_split tab (hd lines), tab_rows (tl lines))
      else
        (case find_header lines 0 of
           None \<Rightarrow> None
         | Some header_line \<Rightarrow>
             Some (split_cells (lines ! header_line),
                   pipe_rows (drop (header_line + 2) lines))))"

text \<open>
  The column filter. \<^verbatim>\<open>if filter_columns:\<close> is false for \<^verbatim>\<open>None\<close> and for an empty
  collection.
\<close>

definition selected :: "string list \<Rightarrow> string list \<Rightarrow> (nat \<times> string) list" where
  "selected headers filter_columns =
     filter (\<lambda>(i, header). header \<in> set filter_columns) (enumerate 0 headers)"

definition filtered_row :: "nat list \<Rightarrow> string list \<Rightarrow> string list" where
  "filtered_row selected_indices row =
     map (\<lambda>i. row ! i) (filter (\<lambda>i. i < length row) selected_indices)"

definition filter_table ::
  "string list option \<Rightarrow> string list \<times> string list list \<Rightarrow> string list \<times> string list list" where
  "filter_table filter_columns t =
     (case filter_columns of
        None \<Rightarrow> t
      | Some [] \<Rightarrow> t
      | Some (f # fs) \<Rightarrow>
          (let selected_indices = map fst (selected (fst t) (f # fs));
               selected_headers = map snd (selected (fst t) (f # fs))
           in (selected_headers, map (filtered_row selected_indices) (snd t))))"

text \<open>\<^verbatim>\<open>max([len(val) for val in enum_values], default=0)\<close>\<close>

definition longest_enum :: "string \<Rightarrow> nat" where
  "longest_enum cell =
     (case map length (findall_quoted cell) of
        [] \<Rightarrow> 0
      | n # ns \<Rightarrow> fold max ns n)"

text \<open>The inner loop of the width computation: \<^verbatim>\<open>max_width\<close> over the rows, for column \<open>i\<close>.\<close>

fun column_width_loop :: "nat \<Rightarrow> string list list \<Rightarrow> int \<Rightarrow> int" where
  "column_width_loop i [] max_width = max_width"
| "column_width_loop i (row # rows) max_width =
     (if i < length row then
        (if py_contains ''enum('' (row ! i) then
           column_width_loop i rows
             (max max_width (int (longest_enum (row ! i)) + int (length ''enum('') + 1))
         else column_width_loop i rows (max max_width (int (length (row ! i)))))
      else column_width_loop i rows max_width)"

definition calc_widths :: "string list \<Rightarrow> string list list \<Rightarrow> int list" where
  "calc_widths headers data =
     map (\<lambda>(i, header). column_width_loop i data (int (length header))) (enumerate 0 headers)"

definition parse_mysql_table ::
  "string list \<Rightarrow> string list option \<Rightarrow> string list \<times> string list list \<times> int list" where
  "parse_mysql_table lines filter_columns =
     (if lines = [] then ([], [], [])
      else
        (case read_table lines of
           None \<Rightarrow> ([], [], [])
         | Some t \<Rightarrow>
             (let (headers, data) = filter_table filter_columns t
              in (headers, data, calc_widths headers data))))"

section \<open>Rendering\<close>

datatype error = IndexError

text \<open>The escape sequences of class \<^verbatim>\<open>Colors\<close> that the renderer uses.\<close>

definition RESET :: string where "RESET = esc # ''[0m''"
definition BOLD :: string where "BOLD = esc # ''[1m''"
definition RED :: string where "RED = esc # ''[31m''"
definition GREEN :: string where "GREEN = esc # ''[32m''"
definition YELLOW :: string where "YELLOW = esc # ''[33m''"
definition BLUE :: string where "BLUE = esc # ''[34m''"
definition MAGENTA :: string where "MAGENTA = esc # ''[35m''"
definition CYAN :: string where "CYAN = esc # ''[36m''"

definition colorize_cell :: "string \<Rightarrow> string \<Rightarrow> bool \<Rightarrow> string" where
  "colorize_cell cell header colorize =
     (if \<not> colorize then cell
      else if py_lower header = ''key'' then
        (if cell = ''PRI'' then BOLD @ RED @ cell @ RESET
         else if cell = ''UNI'' then BOLD @ BLUE @ cell @ RESET
         else if cell = ''MUL'' then BOLD @ GREEN @ cell @ RESET
         else cell)
      else if py_lower header = ''null'' then
        (if cell = ''NO'' then BOLD @ RED @ cell @ RESET
         else if cell = ''YES'' then GREEN @ cell @ RESET
         else cell)
      else if py_lower header = ''type'' then
        (if py_contains ''int'' (py_lower cell) then CYAN @ cell @ RESET
         else if py_contains ''char'' (py_lower cell) \<or> py_contains ''text'' (py_lower cell)
         then GREEN @ cell @ RESET
         else if py_contains ''date'' (py_lower cell) \<or> py_contains ''time'' (py_lower cell)
         then YELLOW @ cell @ RESET
         else if py_contains ''enum'' (py_lower cell) then MAGENTA @ cell @ RESET
         else cell)
      else if py_lower header = ''extra'' then
        (if py_contains ''auto_increment'' (py_lower cell)
         then BOLD @ YELLOW @ cell @ RESET
         else cell)
      else cell)"

text \<open>
  The search for the Type column. \<open>None\<close> stands for the value \<open>-1\<close> that
  \<^verbatim>\<open>type_col_index\<close> keeps when there is no such column.
\<close>

fun find_type :: "string list \<Rightarrow> nat \<Rightarrow> nat option" where
  "find_type [] i = None"
| "find_type (header # rest) i =
     (if py_lower header = ''type'' then Some i else find_type rest (Suc i))"

definition type_col_index :: "string list \<Rightarrow> nat option" where
  "type_col_index headers =
     (case find_type headers 0 of
        Some i \<Rightarrow> Some i
      | None \<Rightarrow> if length headers > 1 then Some 1 else None)"

text \<open>
  The adjustment of the Type column's width. \<^verbatim>\<open>column_widths[type_col_index]\<close> raises
  when the list is too short.
\<close>

definition adjust_widths :: "int \<Rightarrow> string list \<Rightarrow> int list \<Rightarrow> error + int list" where
  "adjust_widths term_width headers column_widths =
     (case type_col_index headers of
        None \<Rightarrow> Inr column_widths
      | Some t \<Rightarrow>
          if t < length column_widths then
            (let non_type_width = sum_list column_widths - column_widths ! t;
                 non_type_width = non_type_width + (int (length column_widths) - 1) * 3 + 4;
                 available_width = term_width - non_type_width;
                 type_width = max (column_widths ! t) (min available_width 50)
             in Inr (column_widths[t := type_width]))
          else Inl IndexError)"

text \<open>
  The statistics block. \<^verbatim>\<open>stats\<close> is \<^verbatim>\<open>None\<close> or a dictionary, here an association
  list; the bullet of the source is written as its three UTF-8 bytes.
\<close>

definition stats_get :: "(string \<times> string) list \<Rightarrow> string \<Rightarrow> string" where
  "stats_get stats k = (case map_of stats k of Some v \<Rightarrow> v | None \<Rightarrow> ''N/A'')"

definition bullet :: string where
  "bullet = [CHR 0xE2, CHR 0x80, CHR 0xA2]"

definition stats_block :: "(string \<times> string) list option \<Rightarrow> bool \<Rightarrow> string list" where
  "stats_block stats colorize =
     (case stats of
        None \<Rightarrow> []
      | Some [] \<Rightarrow> []
      | Some (e # es) \<Rightarrow>
          (if colorize then
             [BOLD @ ''Table Statistics:'' @ RESET,
              bullet @ '' Row Count: '' @ CYAN @ stats_get (e # es) ''row_count'' @ RESET,
              bullet @ '' Size: '' @ CYAN @ stats_get (e # es) ''size_mb'' @ '' MB'' @ RESET,
              bullet @ '' Index Count: '' @ CYAN @ stats_get (e # es) ''index_count'' @ RESET]
           else
             [''Table Statistics:'',
              bullet @ '' Row Count: '' @ stats_get (e # es) ''row_count'',
              bullet @ '' Size: '' @ stats_get (e # es) ''size_mb'' @ '' MB'',
              bullet @ '' Index Count: '' @ stats_get (e # es) ''index_count''])
          @ [[]])"

definition separator :: "int list \<Rightarrow> string" where
  "separator column_widths =
     fold (\<lambda>width s. s @ py_repeat CHR ''-'' (width + 2) @ ''+'') column_widths ''+''"

text \<open>One padded cell: \<^verbatim>\<open>f" {shown.ljust(visible_len)} " + " " * (width - visible_len) + "|"\<close>\<close>

definition padded_cell :: "string \<Rightarrow> nat \<Rightarrow> int \<Rightarrow> string" where
  "padded_cell shown visible_len width =
     '' '' @ py_ljust shown (int visible_len) @ '' ''
       @ py_repeat CHR '' '' (width - int visible_len) @ ''|''"

fun header_cells :: "bool \<Rightarrow> int list \<Rightarrow> nat \<Rightarrow> string list \<Rightarrow> string \<Rightarrow> error + string" where
  "header_cells colorize column_widths i [] header_line = Inr header_line"
| "header_cells colorize column_widths i (header # rest) header_line =
     (let header_display = (if colorize then BOLD @ header @ RESET else header) in
      if i < length column_widths then
        header_cells colorize column_widths (Suc i) rest
          (header_line @ padded_cell header_display (length header) (column_widths ! i))
      else Inl IndexError)"

text \<open>\<^verbatim>\<open>while len(row) < len(headers): row.append("")\<close>, which changes the row in place.\<close>

definition pad_row :: "nat \<Rightarrow> string list \<Rightarrow> string list" where
  "pad_row n row = row @ replicate (n - length row) []"

text \<open>The cells of a row without a wrapped declaration.\<close>

fun normal_cells ::
  "bool \<Rightarrow> string list \<Rightarrow> int list \<Rightarrow> nat \<Rightarrow> string list \<Rightarrow> string \<Rightarrow> error + string" where
  "normal_cells colorize headers column_widths i [] row_line = Inr row_line"
| "normal_cells colorize headers column_widths i (cell # rest) row_line =
     (if i < length column_widths then
        (if i < length headers then
           normal_cells colorize headers column_widths (Suc i) rest
             (row_line @ padded_cell (colorize_cell cell (headers ! i) colorize)
                (length cell) (column_widths ! i))
         else Inl IndexError)
      else normal_cells colorize headers column_widths (Suc i) rest row_line)"

text \<open>
  The cells of physical line \<open>j\<close> of a row whose Type cell is wrapped; \<open>is_last\<close> is
  \<^verbatim>\<open>j == len(enum_lines) - 1\<close>.
\<close>

fun enum_cells ::
  "bool \<Rightarrow> string list \<Rightarrow> int list \<Rightarrow> nat \<Rightarrow> nat \<Rightarrow> bool \<Rightarrow> string \<Rightarrow>
   nat \<Rightarrow> string list \<Rightarrow> string \<Rightarrow> error + string" where
  "enum_cells colorize headers column_widths enum_col j is_last enum_line i [] row_line =
     Inr row_line"
| "enum_cells colorize headers column_widths enum_col j is_last enum_line i (cell # rest) row_line =
     (if i < length column_widths then
        (if i = enum_col then
           (let colored_enum = (if colorize then MAGENTA @ enum_line @ RESET else enum_line) in
            if is_last then
              enum_cells colorize headers column_widths enum_col j is_last enum_line (Suc i) rest
                (row_line @ '' '' @ colored_enum
                   @ py_repeat CHR '' '' (column_widths ! i - int (length enum_line)) @ '' |'')
            else
              enum_cells colorize headers column_widths enum_col j is_last enum_line (Suc i) rest
                (row_line @ padded_cell colored_enum (length enum_line) (column_widths ! i)))
         else if j = 0 then
           (if i < length headers then
              enum_cells colorize headers column_widths enum_col j is_last enum_line (Suc i) rest
                (row_line @ padded_cell (colorize_cell cell (headers ! i) colorize)
                   (length cell) (column_widths ! i))
            else Inl IndexError)
         else
           enum_cells colorize headers column_widths enum_col j is_last enum_line (Suc i) rest
             (row_line @ '' '' @ py_ljust '' '' (column_widths ! i) @ '' |''))
      else
        enum_cells colorize headers column_widths enum_col j is_last enum_line (Suc i) rest
          row_line)"

fun enum_row_lines ::
  "bool \<Rightarrow> string list \<Rightarrow> int list \<Rightarrow> nat \<Rightarrow> string list \<Rightarrow> nat \<Rightarrow> string list \<Rightarrow>
   error + string list" where
  "enum_row_lines colorize headers column_widths enum_col row j [] = Inr []"
| "enum_row_lines colorize headers column_widths enum_col row j (enum_line # rest) =
     (case enum_cells colorize headers column_widths enum_col j (rest = []) enum_line 0 row ''|'' of
        Inl e \<Rightarrow> Inl e
      | Inr row_line \<Rightarrow>
          (case enum_row_lines colorize headers column_widths enum_col row (Suc j) rest of
             Inl e \<Rightarrow> Inl e
           | Inr more \<Rightarrow> Inr (row_line # more)))"

text \<open>One pass of the loop over \<^verbatim>\<open>data\<close>: the lines printed and the row as it is left.\<close>

definition render_row ::
  "bool \<Rightarrow> string list \<Rightarrow> int list \<Rightarrow> nat option \<Rightarrow> string list \<Rightarrow>
   error + (string list \<times> string list)" where
  "render_row colorize headers column_widths type_col row0 =
     (let row = pad_row (length headers) row0;
          has_enum =
            (case type_col of
               None \<Rightarrow> False
             | Some t \<Rightarrow>
                 t < length row \<and> py_contains ''enum('' (row ! t) \<and> length (row ! t) > 40)
      in if \<not> has_enum then
           (case normal_cells colorize headers column_widths 0 row ''|'' of
              Inl e \<Rightarrow> Inl e
            | Inr row_line \<Rightarrow> Inr ([row_line], row))
         else
           (let enum_col = the type_col in
            if enum_col < length column_widths then
              (case enum_row_lines colorize headers column_widths enum_col row 0
                      (format_enum (row ! enum_col) (column_widths ! enum_col)) of
                 Inl e \<Rightarrow> Inl e
               | Inr row_lines \<Rightarrow> Inr (row_lines, row))
            else Inl IndexError))"

fun render_rows ::
  "bool \<Rightarrow> string list \<Rightarrow> int list \<Rightarrow> nat option \<Rightarrow> string list list \<Rightarrow>
   error + (string list \<times> string list list)" where
  "render_rows colorize headers column_widths type_col [] = Inr ([], [])"
| "render_rows colorize headers column_widths type_col (row # rest) =
     (case render_row colorize headers column_widths type_col row of
        Inl e \<Rightarrow> Inl e
      | Inr (row_lines, row') \<Rightarrow>
          (case render_rows colorize headers column_widths type_col rest of
             Inl e \<Rightarrow> Inl e
           | Inr (more, rest') \<Rightarrow> Inr (row_lines @ more, row' # rest')))"

text \<open>
  \<^verbatim>\<open>print_formatted_table\<close>, with the terminal width as a parameter. The result holds
  the lines printed and the three arguments as the call leaves them; an exception is
  \<open>Inl\<close>.
\<close>

record rendered =
  printed :: "string list"
  headers_after :: "string list"
  data_after :: "string list list"
  widths_after :: "int list"

definition print_formatted_table ::
  "int \<Rightarrow> string list \<Rightarrow> string list list \<Rightarrow> int list \<Rightarrow>
   (string \<times> string) list option \<Rightarrow> bool \<Rightarrow> error + rendered" where
  "print_formatted_table term_width headers data column_widths stats colorize =
     (case adjust_widths term_width headers column_widths of
        Inl e \<Rightarrow> Inl e
      | Inr column_widths \<Rightarrow>
          (case header_cells colorize column_widths 0 headers ''|'' of
             Inl e \<Rightarrow> Inl e
           | Inr header_line \<Rightarrow>
               (case render_rows colorize headers column_widths (type_col_index headers) data of
                  Inl e \<Rightarrow> Inl e
                | Inr (row_lines, data') \<Rightarrow>
                    Inr \<lparr>printed = stats_block stats colorize
                           @ [separator column_widths, header_line, separator column_widths]
                           @ row_lines @ [separator column_widths],
                         headers_after = headers,
                         data_after = data',
                         widths_after = column_widths\<rparr>)))"

section \<open>What a cell contributes to the width of its column\<close>

text \<open>
  The two branches of the width loop of \<^verbatim>\<open>parse_mysql_table\<close> as one function of the
  cell. The test is the program's, \<^verbatim>\<open>'enum(' in row[i]\<close>: the five characters anywhere
  in the cell, whether or not a declaration follows them. The quoted substrings are
  those of the whole cell, \<^verbatim>\<open>re.findall(r"'[^']*'", row[i])\<close>, inside the
  parentheses or not, and a cell without any counts 0 for them.
\<close>

definition widest_quoted :: "string \<Rightarrow> nat" where
  "widest_quoted cell =
     (if findall_quoted cell = [] then 0 else Max (length ` set (findall_quoted cell)))"

definition cell_width :: "string \<Rightarrow> int" where
  "cell_width cell =
     (if py_contains ''enum('' cell
      then int (widest_quoted cell) + int (length ''enum('') + 1
      else int (length cell))"

section \<open>The specification's formulas\<close>

text \<open>
  The definitions of this section follow the words of the specification; the theorems
  compare them with the program.
\<close>

text \<open>
  The width a cell asks for in the words of the specification: its length, except that
  a cell that contains an enumerated-type declaration, that is the pattern
  \<^verbatim>\<open>enum(...)\<close>, asks for the length of the longest quoted value of that declaration,
  quotes included, plus the length of \<^verbatim>\<open>enum(\<close> plus one.
\<close>

definition longest_declared_value :: "string \<Rightarrow> nat" where
  "longest_declared_value cell =
     (if get_enum_values cell = [] then 0 else Max (length ` set (get_enum_values cell)))"

definition claimed_cell_width :: "string \<Rightarrow> int" where
  "claimed_cell_width cell =
     (if search_enum cell \<noteq> None
      then int (longest_declared_value cell) + int (length ''enum('') + 1
      else int (length cell))"

text \<open>
  The flexible column: the first column whose header is \<^verbatim>\<open>type\<close> whatever the case
  of its letters; when there is none and there is more than one column, the column of
  index 1.
\<close>

definition flexible_column :: "string list \<Rightarrow> nat \<Rightarrow> bool" where
  "flexible_column headers t =
     (let lowered = map py_lower headers in
      (t < length headers \<and> lowered ! t = ''type'' \<and> ''type'' \<notin> set (take t lowered))
      \<or> (''type'' \<notin> set lowered \<and> 1 < length headers \<and> t = 1))"

text \<open>
  The values of a declaration in the words of the specification: the content runs from
  the \<^verbatim>\<open>(\<close> of the first \<^verbatim>\<open>enum(\<close> to the close parenthesis that matches it, counting
  nested parentheses; the values are the quoted substrings of that content.
\<close>

fun matching_close :: "nat \<Rightarrow> string \<Rightarrow> string option" where
  "matching_close depth [] = None"
| "matching_close depth (c # cs) =
     (if c = CHR '')'' then
        (if depth = 0 then Some []
         else map_option (\<lambda>r. c # r) (matching_close (depth - 1) cs))
      else if c = CHR ''('' then map_option (\<lambda>r. c # r) (matching_close (Suc depth) cs)
      else map_option (\<lambda>r. c # r) (matching_close depth cs))"

fun spec_enum_content :: "string \<Rightarrow> string option" where
  "spec_enum_content [] = None"
| "spec_enum_content (c # cs) =
     (if prefix ''enum('' (c # cs) then matching_close 0 (drop 5 (c # cs))
      else spec_enum_content cs)"

definition spec_extract_values :: "string \<Rightarrow> string list" where
  "spec_extract_values declaration =
     (case spec_enum_content declaration of
        None \<Rightarrow> []
      | Some content \<Rightarrow> findall_quoted content)"

text \<open>
  Greedy packing in the words of the specification. Every value but the last carries a
  trailing comma; a value starts a new line when the current line, a space and the value
  together would exceed the width, and is otherwise appended to the current line after a
  single space.
\<close>

definition enum_tokens :: "string list \<Rightarrow> string list" where
  "enum_tokens vs = map (\<lambda>v. v @ '','') (butlast vs) @ [last vs]"

fun greedy_lines :: "int \<Rightarrow> string \<Rightarrow> string list \<Rightarrow> string list" where
  "greedy_lines w current [] = [current]"
| "greedy_lines w current (t # ts) =
     (if w < int (length (current @ '' '' @ t))
      then current # greedy_lines w t ts
      else greedy_lines w (current @ '' '' @ t) ts)"

section \<open>Properties\<close>

subsection \<open>Wrapping one declaration\<close>

text \<open>
  C4, as the program has it. Wrapping the declaration \<^verbatim>\<open>enum('a','b','c')\<close> at width
  10 gives two lines. The first starts with \<^verbatim>\<open>enum('a',\<close>: the literal \<^verbatim>\<open>enum(\<close>, the
  first value with its quotes, and a comma. The last ends with \<^verbatim>\<open>)\<close>, and the quoted
  values read off the lines one after the other are the values of the declaration in
  their order.
\<close>

theorem enum_wrap_example:
  "format_enum ''enum('a','b','c')'' 10 = [''enum('a','', quote # ''b', 'c')'']
   \<and> prefix (''enum('' @ [quote, CHR ''a'', quote] @ '','')
         (hd (format_enum ''enum('a','b','c')'' 10))
   \<and> suffix '')'' (last (format_enum ''enum('a','b','c')'' 10))
   \<and> get_enum_values ''enum('a','b','c')'' =
        [[quote, CHR ''a'', quote], [quote, CHR ''b'', quote], [quote, CHR ''c'', quote]]
   \<and> concat (map findall_quoted (format_enum ''enum('a','b','c')'' 10)) =
        get_enum_values ''enum('a','b','c')''"
  by code_simp

theorem first_line_keeps_the_quotes:
  "hd (format_enum ''enum('a','b','c')'' 10) = ''enum('a',''
   \<and> \<not> prefix ''enum(a,'' (hd (format_enum ''enum('a','b','c')'' 10))
   \<and> filter (prefix ''enum(a,'') (format_enum ''enum('a','b','c')'' 10) = []"
  by code_simp

subsection \<open>The column filter\<close>

text \<open>
  C10. An empty filter is no filter: the parser returns the same headers, rows and widths
  as without one.
\<close>

theorem empty_filter_is_no_filter:
  "parse_mysql_table lines (Some []) = parse_mysql_table lines None"
  by (simp add: parse_mysql_table_def filter_table_def split: option.splits)

lemma selected_headers_eq:
  "map snd (filter (\<lambda>(i, h). P h) (enumerate n xs)) = filter P xs"
  by (induction xs arbitrary: n) auto

lemma selected_indices_eq:
  "map fst (filter (\<lambda>(i, h). P h) (enumerate n xs)) =
   filter (\<lambda>i. P (xs ! (i - n))) [n..<n + length xs]"
proof (induction xs arbitrary: n)
  case Nil
  then show ?case by simp
next
  case (Cons x xs)
  have u: "[n..<n + length (x # xs)] = n # [Suc n..<Suc n + length xs]"
    by (simp add: upt_conv_Cons del: upt_Suc)
  have h: "filter (\<lambda>i. P ((x # xs) ! (i - n))) [Suc n..<Suc n + length xs] =
        filter (\<lambda>i. P (xs ! (i - Suc n))) [Suc n..<Suc n + length xs]"
    by (rule filter_cong) (auto simp: nth_Cons')
  show ?case
    unfolding u using Cons [of "Suc n"] h by (simp del: upt_Suc)
qed

lemma filter_table_Some:
  assumes "flt \<noteq> []"
  shows "filter_table (Some flt) (hs, rows) =
    (filter (\<lambda>h. h \<in> set flt) hs,
     map (\<lambda>row. map (\<lambda>i. row ! i)
            (filter (\<lambda>i. hs ! i \<in> set flt \<and> i < length row) [0..<length hs])) rows)"
proof -
  obtain f fs where flt: "flt = f # fs" using assms by (cases flt) auto
  have a: "map snd (selected hs flt) = filter (\<lambda>h. h \<in> set flt) hs"
    unfolding selected_def by (rule selected_headers_eq)
  have b: "map fst (selected hs flt) = filter (\<lambda>i. hs ! i \<in> set flt) [0..<length hs]"
    unfolding selected_def using selected_indices_eq [of "\<lambda>h. h \<in> set flt" 0 hs] by simp
  have c: "filtered_row (map fst (selected hs flt)) =
     (\<lambda>row. map (\<lambda>i. row ! i)
            (filter (\<lambda>i. hs ! i \<in> set flt \<and> i < length row) [0..<length hs]))"
    by (rule ext) (simp add: filtered_row_def b conj_commute)
  show ?thesis
    using a b c by (simp add: filter_table_def flt Let_def)
qed

lemma filter_table_known_only:
  assumes "flt1 \<noteq> []" "flt2 \<noteq> []" "set flt1 \<inter> set hs = set flt2 \<inter> set hs"
  shows "filter_table (Some flt1) (hs, rows) = filter_table (Some flt2) (hs, rows)"
proof -
  have m: "\<And>h. h \<in> set hs \<Longrightarrow> (h \<in> set flt1) = (h \<in> set flt2)"
    using assms(3) by blast
  have a: "filter (\<lambda>h. h \<in> set flt1) hs = filter (\<lambda>h. h \<in> set flt2) hs"
    by (rule filter_cong) (auto simp: m)
  have b: "\<And>row. filter (\<lambda>i. hs ! i \<in> set flt1 \<and> i < length row) [0..<length hs] =
      filter (\<lambda>i. hs ! i \<in> set flt2 \<and> i < length row) [0..<length hs]"
    by (rule filter_cong) (auto simp: m)
  show ?thesis
    by (simp add: filter_table_Some assms(1,2) a b)
qed

text \<open>
  C8. With a non-empty filter the parser returns the headers that are in the filter, in
  their order; each row keeps the cells at the positions of those headers, a position past
  the end of a short row being dropped; and only the names that are headers count: two
  filters with the same names among the headers give the same result, so that an unknown
  name changes nothing and raises nothing.
\<close>

theorem column_filter:
  assumes "filter_columns \<noteq> []"
  shows "(case parse_mysql_table lines None of (headers, data, widths) \<Rightarrow>
          (case parse_mysql_table lines (Some filter_columns) of (headers', data', widths') \<Rightarrow>
             headers' = filter (\<lambda>h. h \<in> set filter_columns) headers
           \<and> data' = map (\<lambda>row. map (\<lambda>i. row ! i)
                 (filter (\<lambda>i. headers ! i \<in> set filter_columns \<and> i < length row)
                    [0..<length headers])) data
           \<and> (\<forall>other. other \<noteq> []
                 \<and> set other \<inter> set headers = set filter_columns \<inter> set headers
                 \<longrightarrow> parse_mysql_table lines (Some other) =
                     parse_mysql_table lines (Some filter_columns))))"
proof (cases "lines = [] \<or> read_table lines = None")
  case True
  then show ?thesis by (auto simp: parse_mysql_table_def)
next
  case False
  then obtain hs rows where rt: "read_table lines = Some (hs, rows)" and ne: "lines \<noteq> []"
    by (cases "read_table lines") auto
  have none: "parse_mysql_table lines None = (hs, rows, calc_widths hs rows)"
    by (simp add: parse_mysql_table_def ne rt filter_table_def)
  have some: "\<And>flt. parse_mysql_table lines (Some flt) =
      (case filter_table (Some flt) (hs, rows) of (h, d) \<Rightarrow> (h, d, calc_widths h d))"
    by (simp add: parse_mysql_table_def ne rt)
  have other: "\<And>other. other \<noteq> [] \<Longrightarrow> set other \<inter> set hs = set filter_columns \<inter> set hs \<Longrightarrow>
      parse_mysql_table lines (Some other) = parse_mysql_table lines (Some filter_columns)"
    by (simp add: some filter_table_known_only [OF _ assms])
  show ?thesis
    using other by (simp add: none some filter_table_Some [OF assms])
qed

theorem column_filter_witness:
  "[''Type'', ''Key'', ''zz''] \<noteq> []
   \<and> fst (parse_mysql_table
        [''| Field | Type | Null | Key |'', ''+-------+'', ''| id | int | NO | PRI |'', ''| x | enum |'']
        (Some [''Type'', ''Key'', ''zz''])) = [''Type'', ''Key'']
   \<and> fst (snd (parse_mysql_table
        [''| Field | Type | Null | Key |'', ''+-------+'', ''| id | int | NO | PRI |'', ''| x | enum |'']
        (Some [''Type'', ''Key'', ''zz'']))) = [[''int'', ''PRI''], [''enum'']]
   \<and> parse_mysql_table
        [''| Field | Type | Null | Key |'', ''+-------+'', ''| id | int | NO | PRI |'', ''| x | enum |'']
        (Some [''Key'', ''Type'']) =
      parse_mysql_table
        [''| Field | Type | Null | Key |'', ''+-------+'', ''| id | int | NO | PRI |'', ''| x | enum |'']
        (Some [''Type'', ''Key'', ''zz''])"
proof -
  let ?L = "[''| Field | Type | Null | Key |'', ''+-------+'', ''| id | int | NO | PRI |'', ''| x | enum |'']"
  let ?F = "[''Type'', ''Key'', ''zz'']"
  have n: "parse_mysql_table ?L None =
      ([''Field'', ''Type'', ''Null'', ''Key''],
       [[''id'', ''int'', ''NO'', ''PRI''], [''x'', ''enum'']], [5, 4, 4, 3])"
    by code_simp
  have ne: "?F \<noteq> []" by simp
  have i: "set [''Key'', ''Type''] \<inter> set [''Field'', ''Type'', ''Null'', ''Key''] =
           set ?F \<inter> set [''Field'', ''Type'', ''Null'', ''Key'']"
    by auto
  have u: "[0..<4] = [0, 1, 2, 3]" by (simp add: upt_rec)
  show ?thesis
    using column_filter [OF ne, of ?L] i unfolding n
    by (simp add: u split: prod.splits)
qed

subsection \<open>Column widths\<close>

lemma longest_enum_eq: "longest_enum cell = widest_quoted cell"
proof (cases "findall_quoted cell")
  case Nil
  then show ?thesis by (simp add: longest_enum_def widest_quoted_def)
next
  case (Cons v vs)
  have "fold max (map length vs) (length v) = Max (set (length v # map length vs))"
    by (rule Max.set_eq_fold [symmetric])
  then show ?thesis by (simp add: longest_enum_def widest_quoted_def Cons)
qed

lemma Max_insert_max:
  fixes m :: int
  assumes "finite A"
  shows "Max (insert (max m c) A) = Max (insert m (insert c A))"
proof (cases "A = {}")
  case True
  then show ?thesis by (simp add: max.commute)
next
  case False
  with assms show ?thesis by (simp add: max.assoc)
qed

lemma column_width_loop_eq:
  "column_width_loop i rows m =
   Max (insert m ((\<lambda>row. cell_width (row ! i)) ` {row \<in> set rows. i < length row}))"
proof (induction rows arbitrary: m)
  case Nil
  then show ?case by simp
next
  case (Cons r rows)
  let ?S = "(\<lambda>row. cell_width (row ! i)) ` {row \<in> set rows. i < length row}"
  have fin: "finite ?S" by simp
  show ?case
  proof (cases "i < length r")
    case True
    have s: "{row \<in> set (r # rows). i < length row} = insert r {row \<in> set rows. i < length row}"
      using True by auto
    have step: "column_width_loop i (r # rows) m =
        column_width_loop i rows (max m (cell_width (r ! i)))"
      using True by (simp add: cell_width_def longest_enum_eq)
    show ?thesis
      unfolding step Cons.IH s using Max_insert_max [OF fin] by simp
  next
    case False
    have s: "{row \<in> set (r # rows). i < length row} = {row \<in> set rows. i < length row}"
      using False by auto
    show ?thesis unfolding s using False Cons.IH by simp
  qed
qed

lemma calc_widths_nth:
  "length (calc_widths hs rows) = length hs \<and>
   (\<forall>i<length hs. calc_widths hs rows ! i =
      Max (insert (int (length (hs ! i)))
            ((\<lambda>row. cell_width (row ! i)) ` {row \<in> set rows. i < length row})))"
  by (simp add: calc_widths_def nth_enumerate_eq column_width_loop_eq)

text \<open>
  C7, as the program has it. In the table the parser returns, there is one width for
  each header, and the width of column \<open>i\<close> is the greatest of the length of its header
  and of what the cells of that column contribute, over the rows that reach the column.
  A cell contributes its length, except that a cell with the substring \<^verbatim>\<open>enum(\<close>
  anywhere in it, a complete declaration or not, contributes the length of the longest
  quoted substring of the whole cell, quotes included and 0 when there is none, plus the
  length of \<^verbatim>\<open>enum(\<close> plus one.
\<close>

theorem column_width_formula:
  assumes "parse_mysql_table lines filter_columns = (headers, data, widths)"
  shows "length widths = length headers
   \<and> (\<forall>i<length headers. widths ! i =
        Max (insert (int (length (headers ! i)))
              ((\<lambda>row. cell_width (row ! i)) ` {row \<in> set data. i < length row})))"
proof (cases "lines = [] \<or> read_table lines = None")
  case True
  with assms show ?thesis by (auto simp: parse_mysql_table_def split: if_splits)
next
  case False
  then obtain t where rt: "read_table lines = Some t" and ne: "lines \<noteq> []"
    by (cases "read_table lines") auto
  obtain hs rows where ft: "filter_table filter_columns t = (hs, rows)"
    by (cases "filter_table filter_columns t") auto
  have pm: "parse_mysql_table lines filter_columns = (hs, rows, calc_widths hs rows)"
    by (simp add: parse_mysql_table_def ne rt ft)
  have "(headers, data, widths) = (hs, rows, calc_widths hs rows)"
    by (rule trans [OF assms [symmetric] pm])
  then have "headers = hs" "data = rows" "widths = calc_widths hs rows" by simp_all
  then show ?thesis using calc_widths_nth [of hs rows] by simp
qed

theorem column_width_formula_witness:
  "parse_mysql_table [''| Field | Type |'', ''+-------+'', ''| id | enum('a','bcd') |'', ''| name |''] None =
     ([''Field'', ''Type''], [[''id'', ''enum('a','bcd')''], [''name'']], [5, 11])
   \<and> [5, 11 :: int] ! 1 =
       Max (insert (int (length ''Type''))
         ((\<lambda>row. cell_width (row ! 1)) ` {row \<in> set [[''id'', ''enum('a','bcd')''], [''name'']]. 1 < length row}))
   \<and> cell_width ''enum('a','bcd')'' = 11"
proof -
  have p: "parse_mysql_table [''| Field | Type |'', ''+-------+'', ''| id | enum('a','bcd') |'', ''| name |''] None =
     ([''Field'', ''Type''], [[''id'', ''enum('a','bcd')''], [''name'']], [5, 11])"
    by code_simp
  have c: "cell_width ''enum('a','bcd')'' = 11"
    by (simp add: cell_width_def widest_quoted_def)
  have w: "[5, 11 :: int] ! 1 =
       Max (insert (int (length ''Type''))
         ((\<lambda>row. cell_width (row ! 1)) ` {row \<in> set [[''id'', ''enum('a','bcd')''], [''name'']]. 1 < length row}))"
    using column_width_formula [OF p, THEN conjunct2, rule_format, of 1] by simp
  show ?thesis
    by (rule conjI [OF p conjI [OF w c]])
qed

theorem enum_test_is_a_substring_test:
  "parse_mysql_table [''| Field | Type |'', ''+-------+'', ''| state | enum(aaaaaaaaaa |''] None =
     ([''Field'', ''Type''], [[''state'', ''enum(aaaaaaaaaa'']], [5, 6])
   \<and> search_enum ''enum(aaaaaaaaaa'' = None
   \<and> max (int (length ''Type'')) (claimed_cell_width ''enum(aaaaaaaaaa'') = 15
   \<and> parse_mysql_table
        [''| Field | Type |'', ''+-------+'', ''| state | enum('a') 'long outside text' |''] None =
     ([''Field'', ''Type''], [[''state'', ''enum('a') 'long outside text'' @ [quote]]], [5, 25])
   \<and> get_enum_values (''enum('a') 'long outside text'' @ [quote]) = [[quote, CHR ''a'', quote]]
   \<and> max (int (length ''Type''))
         (claimed_cell_width (''enum('a') 'long outside text'' @ [quote])) = 9"
  by code_simp

subsection \<open>Rows of the pipe-delimited format\<close>

lemma find_header_first:
  assumes "h < length lines" "prefix ''| Field'' (lines ! h)"
    and "\<forall>j<h. \<not> prefix ''| Field'' (lines ! j)"
  shows "find_header lines k = Some (k + h)"
  using assms
proof (induction lines arbitrary: h k)
  case Nil
  then show ?case by simp
next
  case (Cons l ls)
  show ?case
  proof (cases h)
    case 0
    with Cons.prems show ?thesis by simp
  next
    case (Suc h')
    from Cons.prems(3) Suc have l: "\<not> prefix ''| Field'' l" by auto
    have "\<forall>j<h'. \<not> prefix ''| Field'' (ls ! j)"
      using Cons.prems(3) Suc by auto
    with Cons.IH [of h' "Suc k"] Cons.prems(1,2) Suc
    have "find_header ls (Suc k) = Some (Suc k + h')" by simp
    with l Suc show ?thesis by simp
  qed
qed

lemma pipe_rows_eq:
  "pipe_rows ls =
   map split_cells (filter (\<lambda>l. \<not> prefix ''+--'' l \<and> py_strip l \<noteq> []) ls)"
  by (induction ls) auto

text \<open>
  C2, as the program has it. In pipe-delimited mode the header line is the first line
  that starts with \<^verbatim>\<open>| Field\<close>; the line right after it is skipped whatever it holds,
  and the rows are the lines from the second line after the header on that are not blank
  and do not start with \<^verbatim>\<open>+--\<close>, each split on \<^verbatim>\<open>|\<close>, without the two outer
  fields, every cell trimmed.
\<close>

theorem pipe_rows_skip_line_after_header:
  assumes "h < length lines" and "tab \<notin> set (hd lines)"
    and "prefix ''| Field'' (lines ! h)"
    and "\<forall>j<h. \<not> prefix ''| Field'' (lines ! j)"
  shows "fst (snd (parse_mysql_table lines None)) =
     map (\<lambda>l. map py_strip (butlast (tl (py_split CHR ''|'' l))))
       (filter (\<lambda>l. \<not> prefix ''+--'' l \<and> py_strip l \<noteq> []) (drop (h + 2) lines))"
proof -
  have ne: "lines \<noteq> []" using assms(1) by auto
  have fh: "find_header lines 0 = Some h"
    using find_header_first [OF assms(1,3,4), of 0] by simp
  have sc: "split_cells = (\<lambda>l. map py_strip (butlast (tl (py_split CHR ''|'' l))))"
    by (rule ext) (simp add: split_cells_def inner_fields_def)
  have "fst (snd (parse_mysql_table lines None)) = pipe_rows (drop (h + 2) lines)"
    using ne assms(2) fh
    by (simp add: parse_mysql_table_def read_table_def filter_table_def)
  then show ?thesis by (simp add: pipe_rows_eq sc)
qed

theorem pipe_rows_skip_line_after_header_witness:
  "(1::nat) < length [''+---+------+'', ''| Field | Type |'', ''+---+------+'', ''| id | int(11) |'', ''+---+------+'']
   \<and> fst (snd (parse_mysql_table
        [''+---+------+'', ''| Field | Type |'', ''+---+------+'', ''| id | int(11) |'', ''+---+------+'']
        None)) = [[''id'', ''int(11)'']]"
proof -
  let ?L = "[''+---+------+'', ''| Field | Type |'', ''+---+------+'', ''| id | int(11) |'', ''+---+------+'']"
  have a: "(1::nat) < length ?L" by simp
  have b: "tab \<notin> set (hd ?L)" by simp
  have c: "prefix ''| Field'' (?L ! 1)" by simp
  have d: "\<forall>j<(1::nat). \<not> prefix ''| Field'' (?L ! j)" by simp
  have e: "map (\<lambda>l. map py_strip (butlast (tl (py_split CHR ''|'' l))))
       (filter (\<lambda>l. \<not> prefix ''+--'' l \<and> py_strip l \<noteq> []) (drop (1 + 2) ?L)) = [[''id'', ''int(11)'']]"
    by code_simp
  show ?thesis
    using pipe_rows_skip_line_after_header [OF a b c d] a unfolding e by simp
qed

theorem row_right_after_header_is_dropped:
  "fst (snd (parse_mysql_table [''| Field | Type |'', ''| id | int |''] None)) = []
   \<and> map (\<lambda>l. map py_strip (butlast (tl (py_split CHR ''|'' l))))
       (filter (\<lambda>l. \<not> prefix ''+--'' l \<and> py_strip l \<noteq> [])
          (drop 1 [''| Field | Type |'', ''| id | int |''])) = [[''id'', ''int'']]"
  by code_simp

subsection \<open>Rendering never fails on a parsed table\<close>

lemma find_type_None: "(find_type hs k = None) = (''type'' \<notin> set (map py_lower hs))"
  by (induction hs arbitrary: k) auto

lemma find_type_Some:
  "(find_type hs k = Some i) =
   (\<exists>t. i = k + t \<and> t < length hs \<and> py_lower (hs ! t) = ''type''
        \<and> ''type'' \<notin> set (take t (map py_lower hs)))"
proof (induction hs arbitrary: k)
  case Nil
  then show ?case by simp
next
  case (Cons h hs)
  show ?case
  proof (cases "py_lower h = ''type''")
    case True
    have "\<And>t. ''type'' \<notin> set (take t (map py_lower (h # hs))) \<Longrightarrow> t = 0"
      using True by (case_tac t) auto
    then show ?thesis using True by auto
  next
    case False
    have "(\<exists>t. i = k + t \<and> t < length (h # hs) \<and> py_lower ((h # hs) ! t) = ''type''
            \<and> ''type'' \<notin> set (take t (map py_lower (h # hs)))) =
          (\<exists>t'. i = Suc k + t' \<and> t' < length hs \<and> py_lower (hs ! t') = ''type''
            \<and> ''type'' \<notin> set (take t' (map py_lower hs)))" (is "?L = ?R")
    proof
      assume ?L
      then obtain t where t: "i = k + t" "t < length (h # hs)"
        "py_lower ((h # hs) ! t) = ''type''"
        "''type'' \<notin> set (take t (map py_lower (h # hs)))" by blast
      with False obtain t' where "t = Suc t'" by (cases t) auto
      with t show ?R by (intro exI [of _ t']) auto
    next
      assume ?R
      then obtain t' where "i = Suc k + t'" "t' < length hs" "py_lower (hs ! t') = ''type''"
        "''type'' \<notin> set (take t' (map py_lower hs))" by blast
      with False show ?L by (intro exI [of _ "Suc t'"]) auto
    qed
    with False Cons.IH [of "Suc k"] show ?thesis by simp
  qed
qed

lemma type_col_index_flexible:
  "(type_col_index headers = Some t) = flexible_column headers t"
proof (cases "find_type headers 0")
  case None
  then have n: "''type'' \<notin> set (map py_lower headers)" by (simp add: find_type_None)
  have "\<not> (t < length headers \<and> map py_lower headers ! t = ''type'')"
    using n by (metis length_map nth_mem)
  with None n show ?thesis
    by (auto simp: type_col_index_def flexible_column_def Let_def)
next
  case (Some i)
  then have i: "i < length headers" "py_lower (headers ! i) = ''type''"
    "''type'' \<notin> set (take i (map py_lower headers))"
    by (auto simp: find_type_Some)
  have mem: "''type'' \<in> set (map py_lower headers)"
    using i(1,2) by (metis length_map nth_map nth_mem)
  have uniq: "t = i" if "t < length headers" "py_lower (headers ! t) = ''type''"
      "''type'' \<notin> set (take t (map py_lower headers))" for t
  proof -
    have "find_type headers 0 = Some t"
      using that by (simp add: find_type_Some)
    with Some show ?thesis by simp
  qed
  show ?thesis
    using Some i mem uniq [of t]
    by (auto simp: type_col_index_def flexible_column_def Let_def)
qed

lemma flexible_column_less: "flexible_column headers t \<Longrightarrow> t < length headers"
  by (auto simp: flexible_column_def Let_def)

lemma header_cells_ok:
  "i + length hs \<le> length ws \<Longrightarrow> \<exists>l. header_cells c ws i hs acc = Inr l"
  by (induction hs arbitrary: i acc) (auto simp: Let_def)

lemma normal_cells_ok:
  "length ws \<le> length headers \<Longrightarrow> \<exists>l. normal_cells c headers ws i row acc = Inr l"
  by (induction row arbitrary: i acc) auto

lemma enum_cells_ok:
  "length ws \<le> length headers \<Longrightarrow>
   \<exists>l. enum_cells c headers ws col j is_last enum_line i row acc = Inr l"
  by (induction row arbitrary: i acc) (auto simp: Let_def)

lemma enum_row_lines_ok:
  "length ws \<le> length headers \<Longrightarrow>
   \<exists>ls. enum_row_lines c headers ws col row j enum_lines = Inr ls"
proof (induction enum_lines arbitrary: j)
  case Nil
  then show ?case by simp
next
  case (Cons e es)
  obtain l where l: "enum_cells c headers ws col j (es = []) e 0 row ''|'' = Inr l"
    using enum_cells_ok [OF Cons.prems] by blast
  obtain ls where "enum_row_lines c headers ws col row (Suc j) es = Inr ls"
    using Cons.IH [OF Cons.prems] by blast
  with l show ?case by simp
qed

lemma render_row_ok:
  assumes "length ws = length headers" "\<And>t. type_col = Some t \<Longrightarrow> t < length ws"
  shows "\<exists>ls. render_row c headers ws type_col row =
           Inr (ls, row @ replicate (length headers - length row) [])"
proof -
  let ?row = "pad_row (length headers) row"
  obtain l where l: "normal_cells c headers ws 0 ?row ''|'' = Inr l"
    using normal_cells_ok [of ws headers] assms(1) by fastforce
  show ?thesis
  proof (cases type_col)
    case None
    with l show ?thesis by (simp add: render_row_def Let_def pad_row_def)
  next
    case (Some t)
    obtain ls where ls: "enum_row_lines c headers ws t ?row 0 (format_enum (?row ! t) (ws ! t)) = Inr ls"
      using enum_row_lines_ok [of ws headers] assms(1) by fastforce
    from assms(2) Some have "t < length ws" by simp
    with Some l ls show ?thesis
      by (auto simp: render_row_def Let_def pad_row_def)
  qed
qed

lemma render_rows_ok:
  assumes "length ws = length headers" "\<And>t. type_col = Some t \<Longrightarrow> t < length ws"
  shows "\<exists>ls. render_rows c headers ws type_col data =
           Inr (ls, map (\<lambda>row. row @ replicate (length headers - length row) []) data)"
proof (induction data)
  case Nil
  then show ?case by simp
next
  case (Cons row rest)
  obtain ls where a: "render_row c headers ws type_col row =
      Inr (ls, row @ replicate (length headers - length row) [])"
    using render_row_ok [OF assms] by blast
  from Cons obtain more where "render_rows c headers ws type_col rest =
      Inr (more, map (\<lambda>row. row @ replicate (length headers - length row) []) rest)"
    by blast
  with a show ?case by simp
qed

lemma adjust_widths_ok:
  assumes "length ws = length headers"
  shows "adjust_widths tw headers ws =
     Inr (case type_col_index headers of
            None \<Rightarrow> ws
          | Some t \<Rightarrow> ws[t := max (ws ! t)
              (min (tw - (sum_list ws - ws ! t + (int (length ws) - 1) * 3 + 4)) 50)])"
proof (cases "type_col_index headers")
  case None
  then show ?thesis by (simp add: adjust_widths_def)
next
  case (Some t)
  then have "t < length ws"
    using assms flexible_column_less by (simp add: type_col_index_flexible)
  with Some show ?thesis by (simp add: adjust_widths_def Let_def algebra_simps)
qed

lemma print_formatted_table_ok:
  assumes "length ws = length headers"
  shows "\<exists>r. print_formatted_table tw headers data ws stats c = Inr r
     \<and> headers_after r = headers
     \<and> data_after r = map (\<lambda>row. row @ replicate (length headers - length row) []) data
     \<and> widths_after r =
         (case type_col_index headers of
            None \<Rightarrow> ws
          | Some t \<Rightarrow> ws[t := max (ws ! t)
              (min (tw - (sum_list ws - ws ! t + (int (length ws) - 1) * 3 + 4)) 50)])"
proof -
  let ?ws = "case type_col_index headers of
            None \<Rightarrow> ws
          | Some t \<Rightarrow> ws[t := max (ws ! t)
              (min (tw - (sum_list ws - ws ! t + (int (length ws) - 1) * 3 + 4)) 50)]"
  have len: "length ?ws = length headers"
    using assms by (simp split: option.splits)
  have tc: "\<And>t. type_col_index headers = Some t \<Longrightarrow> t < length ?ws"
    using len flexible_column_less by (simp add: type_col_index_flexible)
  obtain hl where hl: "header_cells c ?ws 0 headers ''|'' = Inr hl"
    using header_cells_ok [of 0 headers ?ws] len by fastforce
  obtain ls where ls: "render_rows c headers ?ws (type_col_index headers) data =
      Inr (ls, map (\<lambda>row. row @ replicate (length headers - length row) []) data)"
    using render_rows_ok [OF len tc] by blast
  show ?thesis
    by (simp add: print_formatted_table_def adjust_widths_ok [OF assms] hl ls)
qed

lemma parse_widths_length:
  assumes "parse_mysql_table lines filter_columns = (headers, data, widths)"
  shows "length widths = length headers"
proof -
  have "widths = calc_widths headers data"
    using assms
    by (auto simp: parse_mysql_table_def calc_widths_def Let_def
          split: if_splits option.splits prod.splits)
  then show ?thesis by (simp add: calc_widths_def)
qed

subsection \<open>The width of the flexible column\<close>

text \<open>
  C1, as the program has it. For a table with a flexible column and one width for each
  header, as the parser returns them, rendering succeeds and
  leaves as the flexible width the greater of the original width and of
  \<open>min (terminal width - non-flexible width, 50)\<close>. That width is never below the
  original one; it is at most 50 only when the original one is: it is bounded by the
  greater of the original width and 50.
\<close>

theorem flexible_width:
  assumes "flexible_column headers t" and "length column_widths = length headers"
  shows "\<exists>r. print_formatted_table term_width headers data column_widths stats colorize = Inr r
     \<and> widths_after r ! t =
         max (column_widths ! t)
           (min (term_width
                  - (sum_list column_widths - column_widths ! t
                     + 3 * (int (length column_widths) - 1) + 4)) 50)
     \<and> column_widths ! t \<le> widths_after r ! t
     \<and> widths_after r ! t \<le> max (column_widths ! t) 50"
proof -
  have tc: "type_col_index headers = Some t"
    using assms(1) by (simp add: type_col_index_flexible)
  have lt: "t < length column_widths"
    using assms flexible_column_less by simp
  obtain r where r: "print_formatted_table term_width headers data column_widths stats colorize = Inr r"
    and w: "widths_after r =
         (case type_col_index headers of
            None \<Rightarrow> column_widths
          | Some t \<Rightarrow> column_widths[t := max (column_widths ! t)
              (min (term_width - (sum_list column_widths - column_widths ! t
                 + (int (length column_widths) - 1) * 3 + 4)) 50)])"
    using print_formatted_table_ok [OF assms(2)] by blast
  have "widths_after r ! t = max (column_widths ! t)
           (min (term_width
                  - (sum_list column_widths - column_widths ! t
                     + 3 * (int (length column_widths) - 1) + 4)) 50)"
    using w tc lt by (simp add: mult.commute)
  with r show ?thesis by auto
qed

theorem flexible_width_witness:
  "flexible_column [''Field'', ''Type''] 1
   \<and> (\<exists>r. print_formatted_table 80 [''Field'', ''Type''] [[''id'', ''int(11)'']] [5, 7] None False = Inr r
        \<and> widths_after r ! 1 = 50)"
proof -
  have fc: "flexible_column [''Field'', ''Type''] 1" by code_simp
  have len: "length [5, 7 :: int] = length [''Field'', ''Type'']" by simp
  show ?thesis
    using flexible_width [OF fc len, of 80 "[[''id'', ''int(11)'']]" None False] fc
    by auto
qed

theorem wide_type_column_exceeds_50:
  "parse_mysql_table
     [''| Field | Type |'', ''+-------+'',
      ''| tags | set('aaaaaaaaa','bbbbbbbbb','ccccccccc','ddddddddd','eeeeeeeee') |''] None =
     ([''Field'', ''Type''],
      [[''tags'', ''set('aaaaaaaaa','bbbbbbbbb','ccccccccc','ddddddddd','eeeeeeeee')'']],
      [5, 64])
   \<and> flexible_column [''Field'', ''Type''] 1
   \<and> map_sum id widths_after
       (print_formatted_table 80 [''Field'', ''Type'']
          [[''tags'', ''set('aaaaaaaaa','bbbbbbbbb','ccccccccc','ddddddddd','eeeeeeeee')'']]
          [5, 64] None False) = Inr [5, 64]
   \<and> \<not> ([5, 64 :: int] ! 1 \<le> 50)"
  by code_simp


subsection \<open>What rendering changes\<close>

text \<open>
  C9, as the program has it. Rendering a parsed table succeeds. It leaves the headers as
  they are; in the widths it changes the entry of the flexible column only; and it pads
  in place every row that has fewer cells than there are headers, with empty strings up
  to that number, every cell that was there staying as it is.
\<close>

theorem render_frame:
  assumes "parse_mysql_table lines filter_columns = (headers, data, column_widths)"
  shows "\<exists>r. print_formatted_table term_width headers data column_widths stats colorize = Inr r
     \<and> headers_after r = headers
     \<and> data_after r = map (\<lambda>row. row @ replicate (length headers - length row) []) data
     \<and> length (widths_after r) = length column_widths
     \<and> (\<forall>i<length column_widths.
           \<not> flexible_column headers i \<longrightarrow> widths_after r ! i = column_widths ! i)"
proof -
  have len: "length column_widths = length headers"
    using parse_widths_length [OF assms] .
  obtain r where r: "print_formatted_table term_width headers data column_widths stats colorize = Inr r"
    and h: "headers_after r = headers"
    and d: "data_after r = map (\<lambda>row. row @ replicate (length headers - length row) []) data"
    and w: "widths_after r =
         (case type_col_index headers of
            None \<Rightarrow> column_widths
          | Some t \<Rightarrow> column_widths[t := max (column_widths ! t)
              (min (term_width - (sum_list column_widths - column_widths ! t
                 + (int (length column_widths) - 1) * 3 + 4)) 50)])"
    using print_formatted_table_ok [OF len] by blast
  have l: "length (widths_after r) = length column_widths"
    using w by (simp split: option.splits)
  have o: "widths_after r ! i = column_widths ! i" if "\<not> flexible_column headers i" for i
    using w that by (auto simp: type_col_index_flexible [symmetric] split: option.splits)
  show ?thesis using r h d l o by blast
qed

theorem render_frame_witness:
  "parse_mysql_table [''| Field | Type | Null |'', ''+-------+'', ''| id | int(11) |''] None =
     ([''Field'', ''Type'', ''Null''], [[''id'', ''int(11)'']], [5, 7, 4])
   \<and> (\<exists>r. print_formatted_table 80 [''Field'', ''Type'', ''Null''] [[''id'', ''int(11)'']]
             [5, 7, 4] None False = Inr r
        \<and> headers_after r = [''Field'', ''Type'', ''Null'']
        \<and> data_after r = [[''id'', ''int(11)'', []]]
        \<and> widths_after r ! 0 = 5 \<and> widths_after r ! 2 = 4)"
proof -
  have p: "parse_mysql_table [''| Field | Type | Null |'', ''+-------+'', ''| id | int(11) |''] None =
     ([''Field'', ''Type'', ''Null''], [[''id'', ''int(11)'']], [5, 7, 4])"
    by code_simp
  have f0: "\<not> flexible_column [''Field'', ''Type'', ''Null''] 0" by code_simp
  have f2: "\<not> flexible_column [''Field'', ''Type'', ''Null''] 2" by code_simp
  obtain r where r: "print_formatted_table 80 [''Field'', ''Type'', ''Null''] [[''id'', ''int(11)'']]
             [5, 7, 4] None False = Inr r"
    and h: "headers_after r = [''Field'', ''Type'', ''Null'']"
    and d: "data_after r = map (\<lambda>row. row @ replicate (length [''Field'', ''Type'', ''Null''] - length row) [])
              [[''id'', ''int(11)'']]"
    and o: "\<forall>i<length [5, 7, 4 :: int].
           \<not> flexible_column [''Field'', ''Type'', ''Null''] i \<longrightarrow> widths_after r ! i = [5, 7, 4] ! i"
    using render_frame [OF p, of 80 None False] by blast
  have w0: "widths_after r ! 0 = 5" using o f0 by simp
  have w2: "widths_after r ! 2 = 4" using o f2 by simp
  have d': "data_after r = [[''id'', ''int(11)'', []]]" using d by (simp add: numeral_3_eq_3)
  show ?thesis using p r h d' w0 w2 by blast
qed

theorem short_row_is_padded_in_place:
  "parse_mysql_table [''| Field | Type |'', ''+-------+'', ''| id |''] None =
     ([''Field'', ''Type''], [[''id'']], [5, 4])
   \<and> map_sum id data_after
       (print_formatted_table 80 [''Field'', ''Type''] [[''id'']] [5, 4] None False) =
     Inr [[''id'', []]]
   \<and> [[''id'', []]] \<noteq> [[''id'']]"
  by code_simp

subsection \<open>The end-to-end example\<close>

text \<open>
  C3, as the program has it. The five input lines parse to the headers \<^verbatim>\<open>Field\<close>,
  \<^verbatim>\<open>Type\<close> and the one row \<^verbatim>\<open>id\<close>, \<^verbatim>\<open>int(11)\<close>. Rendering that table without
  statistics prints five lines for every terminal width, with or without colours: a
  border, the header row, the border again, the data row, and the border a third time.
\<close>

theorem end_to_end_example:
  "parse_mysql_table
     [''+---+------+'', ''| Field | Type |'', ''+---+------+'', ''| id | int(11) |'', ''+---+------+'']
     None = ([''Field'', ''Type''], [[''id'', ''int(11)'']], [5, 7])
   \<and> (\<exists>r. print_formatted_table term_width [''Field'', ''Type''] [[''id'', ''int(11)'']] [5, 7]
             None colorize = Inr r
        \<and> length (printed r) = 5
        \<and> printed r =
            (let w = max 7 (min (term_width - 12) 50);
                 border = ''+-------+'' @ replicate (nat (w + 2)) CHR ''-'' @ ''+'';
                 bold = (if colorize then BOLD else []);
                 cyan = (if colorize then CYAN else []);
                 reset = (if colorize then RESET else [])
             in [border,
                 ''| '' @ bold @ ''Field'' @ reset @ '' | '' @ bold @ ''Type'' @ reset @ '' ''
                   @ replicate (nat (w - 4)) CHR '' '' @ ''|'',
                 border,
                 ''| id    | '' @ cyan @ ''int(11)'' @ reset @ '' ''
                   @ replicate (nat (w - 7)) CHR '' '' @ ''|'',
                 border]))"
proof -
  have p: "parse_mysql_table
     [''+---+------+'', ''| Field | Type |'', ''+---+------+'', ''| id | int(11) |'', ''+---+------+'']
     None = ([''Field'', ''Type''], [[''id'', ''int(11)'']], [5, 7])"
    by code_simp
  have tc: "type_col_index [''Field'', ''Type''] = Some 1" by code_simp
  have lf: "py_lower ''Field'' = ''field''" by code_simp
  have lt: "py_lower ''Type'' = ''type''" by code_simp
  have li: "py_contains ''int'' (py_lower ''int(11)'')" by code_simp
  have ne: "\<not> py_contains ''enum('' ''int(11)''" by code_simp
  have aw: "adjust_widths term_width [''Field'', ''Type''] [5, 7] =
      Inr [5, max 7 (min (term_width - 12) 50)]"
    by (simp add: adjust_widths_def tc Let_def)
  let ?w = "max 7 (min (term_width - 12) 50)"
  have hc: "header_cells colorize [5, ?w] 0 [''Field'', ''Type''] ''|'' =
      Inr (''| '' @ (if colorize then BOLD else []) @ ''Field'' @ (if colorize then RESET else [])
           @ '' | '' @ (if colorize then BOLD else []) @ ''Type'' @ (if colorize then RESET else [])
           @ '' '' @ replicate (nat (?w - 4)) CHR '' '' @ ''|'')"
    by (simp add: Let_def padded_cell_def py_ljust_def py_repeat_def BOLD_def RESET_def)
  have rr: "render_rows colorize [''Field'', ''Type''] [5, ?w] (Some 1) [[''id'', ''int(11)'']] =
      Inr ([''| id    | '' @ (if colorize then CYAN else []) @ ''int(11)''
              @ (if colorize then RESET else []) @ '' ''
              @ replicate (nat (?w - 7)) CHR '' '' @ ''|''],
           [[''id'', ''int(11)'']])"
    using ne li
    by (simp add: render_row_def pad_row_def Let_def colorize_cell_def lf lt
          padded_cell_def py_ljust_def py_repeat_def CYAN_def RESET_def numeral_3_eq_3)
  have r7: "replicate 7 CHR ''-'' = ''-------''" by code_simp
  have sp: "separator [5, ?w] = ''+-------+'' @ replicate (nat (?w + 2)) CHR ''-'' @ ''+''"
    by (simp add: separator_def py_repeat_def r7)
  have pf: "print_formatted_table term_width [''Field'', ''Type''] [[''id'', ''int(11)'']] [5, 7]
             None colorize =
      Inr \<lparr>printed =
             [''+-------+'' @ replicate (nat (?w + 2)) CHR ''-'' @ ''+'',
              ''| '' @ (if colorize then BOLD else []) @ ''Field'' @ (if colorize then RESET else [])
                @ '' | '' @ (if colorize then BOLD else []) @ ''Type''
                @ (if colorize then RESET else [])
                @ '' '' @ replicate (nat (?w - 4)) CHR '' '' @ ''|'',
              ''+-------+'' @ replicate (nat (?w + 2)) CHR ''-'' @ ''+'',
              ''| id    | '' @ (if colorize then CYAN else []) @ ''int(11)''
                @ (if colorize then RESET else []) @ '' ''
                @ replicate (nat (?w - 7)) CHR '' '' @ ''|'',
              ''+-------+'' @ replicate (nat (?w + 2)) CHR ''-'' @ ''+''],
           headers_after = [''Field'', ''Type''],
           data_after = [[''id'', ''int(11)'']],
           widths_after = [5, ?w]\<rparr>"
    by (simp only: print_formatted_table_def aw sum.case tc hc rr prod.case sp
          stats_block_def option.case append.simps)
  show ?thesis
    by (simp add: p pf Let_def split del: if_split)
qed

theorem end_to_end_prints_five_lines:
  "map_sum id (\<lambda>r. length (printed r))
     (print_formatted_table 80 [''Field'', ''Type''] [[''id'', ''int(11)'']] [5, 7] None False)
     = Inr 5
   \<and> (5::nat) \<noteq> 4"
  by code_simp

subsection \<open>Extracting the values of a declaration\<close>

lemma findall_quoted_no_quote: "quote \<notin> set u \<Longrightarrow> findall_quoted u = []"
  by (induction u) auto

lemma findall_quoted_skip:
  "quote \<notin> set u \<Longrightarrow> findall_quoted (u @ w) = findall_quoted w"
  by (induction u) auto

lemma findall_quoted_pair:
  assumes "quote \<notin> set v"
  shows "findall_quoted (quote # v @ quote # rest) = (quote # v @ [quote]) # findall_quoted rest"
proof -
  have d: "dropWhile (\<lambda>x. x \<noteq> quote) (v @ quote # rest) = quote # rest"
    using assms by (auto simp: dropWhile_append3)
  have t: "takeWhile (\<lambda>x. x \<noteq> quote) (v @ quote # rest) = v"
    using assms by (auto simp: takeWhile_tail)
  show ?thesis by (simp add: d t)
qed

lemma findall_quoted_lone:
  assumes "quote \<notin> set v"
  shows "findall_quoted (quote # v) = []"
proof -
  have d: "dropWhile (\<lambda>x. x \<noteq> quote) v = []" using assms by auto
  show ?thesis
    unfolding findall_quoted.simps d using assms by (simp add: findall_quoted_no_quote)
qed

lemma greedy_group_last_paren:
  assumes "newline \<notin> set body"
    and "CHR '')'' \<notin> set (takeWhile (\<lambda>x. x \<noteq> newline) post)"
  shows "greedy_group (body @ CHR '')'' # post) = Some body"
proof -
  let ?p = "takeWhile (\<lambda>x. x \<noteq> newline) post"
  have t: "takeWhile (\<lambda>x. x \<noteq> newline) (body @ CHR '')'' # post) = body @ CHR '')'' # ?p"
    using assms(1) by (induction body) auto
  have d: "dropWhile (\<lambda>x. x \<noteq> CHR '')'') (rev ?p @ CHR '')'' # rev body) = CHR '')'' # rev body"
    using assms(2) by (auto simp: dropWhile_append3)
  show ?thesis
    unfolding greedy_group_def t by (simp add: d)
qed

lemma prefix_of_longer:
  "prefix p (x @ y) \<Longrightarrow> length p \<le> length x \<Longrightarrow> prefix p x"
  by (auto simp: prefix_append)

lemma search_enum_first:
  assumes "\<not> py_contains ''enum('' (pre @ ''enum'')" and "greedy_group rest = Some g"
  shows "search_enum (pre @ ''enum('' @ rest) = Some g"
  using assms(1)
proof (induction pre)
  case Nil
  show ?case using assms(2) by simp
next
  case (Cons c pre)
  have np: "\<not> prefix ''enum('' ((c # pre) @ ''enum'')" and nc: "\<not> py_contains ''enum('' (pre @ ''enum'')"
    using Cons.prems by auto
  have "\<not> prefix ''enum('' (((c # pre) @ ''enum'') @ (''('' @ rest))"
    using np prefix_of_longer [of "''enum(''" "(c # pre) @ ''enum''" "''('' @ rest"] by auto
  then have np': "\<not> prefix ''enum('' (c # (pre @ ''enum('' @ rest))" by simp
  have "search_enum (c # (pre @ ''enum('' @ rest)) = search_enum (pre @ ''enum('' @ rest)"
    using np' by (simp only: search_enum.simps if_False)
  with Cons.IH [OF nc] show ?case by (simp only: append_Cons)
qed

lemma greedy_group_Some:
  assumes "greedy_group t = Some g"
  shows "\<exists>post. t = g @ CHR '')'' # post \<and> newline \<notin> set g"
proof -
  let ?l = "takeWhile (\<lambda>x. x \<noteq> newline) t"
  from assms have mem: "CHR '')'' \<in> set (rev ?l)"
    and g: "g = rev (tl (dropWhile (\<lambda>x. x \<noteq> CHR '')'') (rev ?l)))"
    by (auto simp: greedy_group_def Let_def split: if_splits)
  from split_list_first [OF mem] obtain a b
    where ab: "rev ?l = a @ CHR '')'' # b" "CHR '')'' \<notin> set a" by blast
  have "dropWhile (\<lambda>x. x \<noteq> CHR '')'') (rev ?l) = CHR '')'' # b"
    unfolding ab(1) using ab(2) by (auto simp: dropWhile_append3)
  with g have gb: "g = rev b" by simp
  have "rev (rev ?l) = rev (a @ CHR '')'' # b)" using ab(1) by simp
  then have l: "?l = g @ CHR '')'' # rev a" using gb by simp
  have "t = ?l @ dropWhile (\<lambda>x. x \<noteq> newline) t" by simp
  then have t: "t = g @ CHR '')'' # (rev a @ dropWhile (\<lambda>x. x \<noteq> newline) t)"
    using l by simp
  have "set g \<subseteq> set ?l" using l by (metis set_append sup_ge1)
  then have "newline \<notin> set g" using set_takeWhileD by fastforce
  with t show ?thesis by blast
qed

lemma search_enum_Some:
  "search_enum s = Some g \<Longrightarrow>
   \<exists>pre post. s = pre @ ''enum('' @ g @ '')'' @ post \<and> newline \<notin> set g"
proof (induction s)
  case Nil
  then show ?case by simp
next
  case (Cons c cs)
  show ?case
  proof (cases "prefix ''enum('' (c # cs) \<and> greedy_group (drop 5 (c # cs)) = Some g")
    case True
    then obtain post where p: "drop 5 (c # cs) = g @ CHR '')'' # post" "newline \<notin> set g"
      using greedy_group_Some by blast
    from True have "take 5 (c # cs) = ''enum(''"
      by (auto simp: prefix_def)
    then have "c # cs = ''enum('' @ drop 5 (c # cs)"
      by (metis append_take_drop_id)
    with p have "c # cs = [] @ ''enum('' @ g @ '')'' @ post" by simp
    with p(2) show ?thesis by blast
  next
    case False
    with Cons.prems have "search_enum cs = Some g"
      by (auto split: if_splits option.splits)
    from Cons.IH [OF this] obtain pre post
      where "cs = pre @ ''enum('' @ g @ '')'' @ post" "newline \<notin> set g" by blast
    then have "c # cs = (c # pre) @ ''enum('' @ g @ '')'' @ post" by simp
    with \<open>newline \<notin> set g\<close> show ?thesis by blast
  qed
qed

text \<open>
  C6, as the program has it. When \<open>pre\<close> is what precedes the first \<^verbatim>\<open>enum(\<close> of the
  declaration, \<open>body\<close> has no newline and \<open>post\<close> has no \<^verbatim>\<open>)\<close> before its first
  newline, so that the \<^verbatim>\<open>)\<close> after \<open>body\<close> is the last one of the line, the values are
  the quoted substrings of \<open>body\<close>; a declaration that does not hold \<^verbatim>\<open>enum(\<close>,
  characters other than a newline, \<^verbatim>\<open>)\<close> has no values. The quoted substrings are
  taken from the left, quotes kept: text without a quote is skipped, a quote with its
  next quote makes a value, and a last quote without a partner makes none.
\<close>

theorem extract_values:
  "(s = pre @ ''enum('' @ body @ '')'' @ post
      \<and> \<not> py_contains ''enum('' (pre @ ''enum'')
      \<and> newline \<notin> set body
      \<and> CHR '')'' \<notin> set (takeWhile (\<lambda>c. c \<noteq> newline) post)
    \<longrightarrow> get_enum_values s = findall_quoted body)
   \<and> ((\<nexists>pre body post. s = pre @ ''enum('' @ body @ '')'' @ post \<and> newline \<notin> set body)
    \<longrightarrow> get_enum_values s = [])
   \<and> (quote \<notin> set u \<and> quote \<notin> set v
    \<longrightarrow> findall_quoted (u @ quote # v @ quote # rest) =
        (quote # v @ [quote]) # findall_quoted rest)
   \<and> (quote \<notin> set u \<and> quote \<notin> set v \<longrightarrow> findall_quoted (u @ quote # v) = [])
   \<and> (quote \<notin> set u \<longrightarrow> findall_quoted u = [])"
proof (intro conjI impI)
  assume a: "s = pre @ ''enum('' @ body @ '')'' @ post
      \<and> \<not> py_contains ''enum('' (pre @ ''enum'')
      \<and> newline \<notin> set body
      \<and> CHR '')'' \<notin> set (takeWhile (\<lambda>c. c \<noteq> newline) post)"
  then have "greedy_group (body @ '')'' @ post) = Some body"
    using greedy_group_last_paren [of body post] by simp
  with a have "search_enum s = Some body"
    using search_enum_first [of pre "body @ '')'' @ post" body] by simp
  then show "get_enum_values s = findall_quoted body"
    by (simp add: get_enum_values_def)
next
  assume "\<nexists>pre body post. s = pre @ ''enum('' @ body @ '')'' @ post \<and> newline \<notin> set body"
  then have "search_enum s = None"
    using search_enum_Some [of s] by (cases "search_enum s") auto
  then show "get_enum_values s = []" by (simp add: get_enum_values_def)
next
  assume "quote \<notin> set u \<and> quote \<notin> set v"
  then have u: "quote \<notin> set u" and v: "quote \<notin> set v" by simp_all
  show "findall_quoted (u @ quote # v @ quote # rest) =
        (quote # v @ [quote]) # findall_quoted rest"
    by (simp only: findall_quoted_skip [OF u] findall_quoted_pair [OF v])
next
  assume "quote \<notin> set u \<and> quote \<notin> set v"
  then have u: "quote \<notin> set u" and v: "quote \<notin> set v" by simp_all
  show "findall_quoted (u @ quote # v) = []"
    by (simp only: findall_quoted_skip [OF u] findall_quoted_lone [OF v])
next
  assume "quote \<notin> set u"
  then show "findall_quoted u = []" by (rule findall_quoted_no_quote)
qed

theorem values_past_the_matching_parenthesis:
  "get_enum_values ''enum('a') or ('b')'' = [[quote, CHR ''a'', quote], [quote, CHR ''b'', quote]]
   \<and> spec_extract_values ''enum('a') or ('b')'' = [[quote, CHR ''a'', quote]]"
  by code_simp

theorem extract_values_witness:
  "get_enum_values ''x enum('a','b') y'' =
     [[quote, CHR ''a'', quote], [quote, CHR ''b'', quote]]
   \<and> \<not> py_contains ''enum('' (''x '' @ ''enum'')
   \<and> findall_quoted (''x '' @ quote # ''a'' @ quote # '','b'') = [[quote, CHR ''a'', quote]]
   \<and> get_enum_values ''x enum 'a' '' = []"
proof -
  let ?body = "quote # ''a','b'' @ [quote]"
  have s: "''x enum('a','b') y'' = ''x '' @ ''enum('' @ ?body @ '')'' @ '' y''" by simp
  have c: "\<not> py_contains ''enum('' (''x '' @ ''enum'')" by code_simp
  have n: "newline \<notin> set ?body" by simp
  have p: "CHR '')'' \<notin> set (takeWhile (\<lambda>c. c \<noteq> newline) '' y'')" by simp
  have f: "findall_quoted ?body = [[quote, CHR ''a'', quote], [quote, CHR ''b'', quote]]"
    by code_simp
  have u: "quote \<notin> set ''x ''" and v: "quote \<notin> set ''a''" by simp_all
  have l: "findall_quoted '','b'' = []" by code_simp
  have a: "\<nexists>pre body post. ''x enum 'a' '' = pre @ ''enum('' @ body @ '')'' @ post \<and> newline \<notin> set body"
  proof
    assume "\<exists>pre body post. ''x enum 'a' '' = pre @ ''enum('' @ body @ '')'' @ post \<and> newline \<notin> set body"
    then obtain pre body post where eq: "''x enum 'a' '' = pre @ ''enum('' @ body @ '')'' @ post"
      by blast
    have m: "CHR '')'' \<in> set (pre @ ''enum('' @ body @ '')'' @ post)" by simp
    have "CHR '')'' \<in> set ''x enum 'a' ''" by (rule m [folded eq])
    then show False by simp
  qed
  note th = extract_values [of "''x enum('a','b') y''" "''x ''" ?body "'' y''" "''x ''" "''a''" "'','b''"]
  have 1: "get_enum_values ''x enum('a','b') y'' = findall_quoted ?body"
    by (rule th [THEN conjunct1, rule_format]) (intro conjI s c n p)
  have 2: "findall_quoted (''x '' @ quote # ''a'' @ quote # '','b'') =
        (quote # ''a'' @ [quote]) # findall_quoted '','b''"
    by (rule th [THEN conjunct2, THEN conjunct2, THEN conjunct1, rule_format]) (intro conjI u v)
  have 3: "get_enum_values ''x enum 'a' '' = []"
    by (rule extract_values [of "''x enum 'a' ''", THEN conjunct2, THEN conjunct1, rule_format])
       (rule a)
  show ?thesis
    unfolding 1 2 3 f l using c by simp
qed

subsection \<open>Greedy packing\<close>

lemma findall_quoted_shape:
  "v \<in> set (findall_quoted s) \<Longrightarrow> v \<noteq> [] \<and> last v = quote"
  by (induction s rule: findall_quoted.induct) (auto split: if_splits list.splits)

lemma enum_tokens_Cons:
  "enum_tokens (v # vs) =
   (if vs \<noteq> [] then v @ '','' else v) # (if vs = [] then [] else enum_tokens vs)"
  by (simp add: enum_tokens_def)

lemma greedy_lines_nonempty: "greedy_lines w cur ts \<noteq> []"
  by (induction ts arbitrary: cur) auto

lemma greedy_lines_bound:
  "l \<in> set (greedy_lines w cur ts) \<Longrightarrow> int (length l) \<le> w \<or> l = cur \<or> l \<in> set ts"
proof (induction ts arbitrary: cur)
  case Nil
  then show ?case by simp
next
  case (Cons t ts)
  show ?case
  proof (cases "w < int (length (cur @ '' '' @ t))")
    case True
    with Cons.prems have "l = cur \<or> l \<in> set (greedy_lines w t ts)" by simp
    with Cons.IH [of t] show ?thesis by auto
  next
    case False
    with Cons.prems have "l \<in> set (greedy_lines w (cur @ '' '' @ t) ts)" by simp
    from Cons.IH [OF this] False show ?thesis by auto
  qed
qed

lemma greedy_lines_last:
  "suffix (last (cur # ts)) (last (greedy_lines w cur ts))"
proof (induction ts arbitrary: cur)
  case Nil
  then show ?case by simp
next
  case (Cons t ts)
  show ?case
  proof (cases "w < int (length (cur @ '' '' @ t))")
    case True
    then show ?thesis using Cons.IH [of t] by (simp add: greedy_lines_nonempty)
  next
    case False
    have "suffix (last ((cur @ '' '' @ t) # ts)) (last (greedy_lines w (cur @ '' '' @ t) ts))"
      by (rule Cons.IH)
    moreover have "suffix (last (t # ts)) (last ((cur @ '' '' @ t) # ts))"
      by (cases ts) (auto simp: suffix_def)
    ultimately have "suffix (last (t # ts)) (last (greedy_lines w (cur @ '' '' @ t) ts))"
      by (rule suffix_order.trans [rotated])
    with False show ?thesis by simp
  qed
qed

lemma pack_values_greedy:
  assumes "cur \<noteq> []" and "\<forall>v\<in>set vs. v \<noteq> []"
  shows "pack_values w vs lines cur =
     (lines @ butlast (greedy_lines w cur (if vs = [] then [] else enum_tokens vs)),
      last (greedy_lines w cur (if vs = [] then [] else enum_tokens vs)))"
  using assms
proof (induction vs arbitrary: lines cur)
  case Nil
  then show ?case by simp
next
  case (Cons v vs)
  let ?val = "if vs \<noteq> [] then v @ '','' else v"
  let ?T = "if vs = [] then [] else enum_tokens vs"
  have val: "?val \<noteq> []" using Cons.prems(2) by simp
  have rest: "\<forall>v\<in>set vs. v \<noteq> []" using Cons.prems(2) by simp
  have tok: "enum_tokens (v # vs) = ?val # ?T" by (rule enum_tokens_Cons)
  show ?case
  proof (cases "w < int (length (cur @ '' '' @ ?val))")
    case True
    have "pack_values w (v # vs) lines cur = pack_values w vs (lines @ [cur]) ?val"
      using True Cons.prems(1) by (simp add: Let_def)
    also have "\<dots> = ((lines @ [cur]) @ butlast (greedy_lines w ?val ?T),
                     last (greedy_lines w ?val ?T))"
      by (rule Cons.IH [OF val rest])
    finally show ?thesis
      using True by (simp add: tok greedy_lines_nonempty del: enum_tokens_Cons)
  next
    case False
    have "pack_values w (v # vs) lines cur = pack_values w vs lines (cur @ '' '' @ ?val)"
      using False Cons.prems(1) by (simp add: Let_def)
    also have "\<dots> = (lines @ butlast (greedy_lines w (cur @ '' '' @ ?val) ?T),
                     last (greedy_lines w (cur @ '' '' @ ?val) ?T))"
      by (rule Cons.IH) (use rest in simp_all)
    finally show ?thesis
      using False by (simp add: tok)
  qed
qed

lemma format_enum_greedy:
  assumes "get_enum_values declaration = v0 # v1 # vs"
  shows "format_enum declaration w =
     (''enum('' @ v0 @ '','')
       # butlast (greedy_lines w (hd (enum_tokens (v1 # vs))) (tl (enum_tokens (v1 # vs))))
       @ [last (greedy_lines w (hd (enum_tokens (v1 # vs))) (tl (enum_tokens (v1 # vs)))) @ '')'']"
proof -
  let ?val = "if vs \<noteq> [] then v1 @ '','' else v1"
  let ?T = "if vs = [] then [] else enum_tokens vs"
  let ?G = "greedy_lines w ?val ?T"
  define first where "first = ''enum('' @ v0 @ '',''"
  obtain content where content: "findall_quoted content = v0 # v1 # vs"
    using assms by (auto simp: get_enum_values_def split: option.splits)
  have mem: "\<forall>v\<in>set (v1 # vs). v \<noteq> [] \<and> last v = quote"
  proof
    fix v assume "v \<in> set (v1 # vs)"
    then have "v \<in> set (findall_quoted content)" unfolding content by simp
    then show "v \<noteq> [] \<and> last v = quote" by (rule findall_quoted_shape)
  qed
  have tok: "enum_tokens (v1 # vs) = ?val # ?T" by (rule enum_tokens_Cons)
  have val: "?val \<noteq> []" using mem by simp
  have pk: "pack_values w (v1 # vs) [first] [] = ([first] @ butlast ?G, last ?G)"
    using pack_values_greedy [OF val, of vs w "[first]"] mem by (simp add: Let_def)
  have fe: "format_enum declaration w =
      (case pack_values w (v1 # vs) [first] [] of
         (lines, current_line) \<Rightarrow>
           close_last (if current_line \<noteq> [] then lines @ [current_line] else lines))"
    by (simp add: format_enum_def assms Let_def first_def del: pack_values.simps)
  have lastq: "last (last (?val # ?T)) = quote \<and> last (?val # ?T) \<noteq> []"
    using mem by (auto simp: enum_tokens_def)
  obtain z where z: "last ?G = z @ last (?val # ?T)"
    using greedy_lines_last [of ?val ?T w] by (auto simp: suffix_def)
  have ne: "last ?G \<noteq> []" using z lastq by simp
  have lq: "last (last ?G) = quote" using z lastq by simp
  have ns: "\<not> suffix '','' (last ?G)"
    using lq ne by (auto simp: suffix_def)
  have G: "butlast ?G @ [last ?G] = ?G" by (simp add: greedy_lines_nonempty)
  have "format_enum declaration w = close_last (first # butlast ?G @ [last ?G])"
    unfolding fe pk using ne by simp
  also have "\<dots> = first # butlast ?G @ [last ?G @ '')'']"
    using ns by (simp add: close_last_def butlast_append)
  finally show ?thesis by (simp add: tok first_def)
qed

text \<open>
  C5, as the program has it. For a declaration with at least two values, the first line
  is \<^verbatim>\<open>enum(\<close>, the first value and a comma, and holds nothing else. The values after
  the first are packed greedily on the lines that follow: the second value starts the
  second line, and each later value, with its comma unless it is the last, starts a new
  line exactly when the current line, a space and the value would exceed the width, and
  is appended after one space otherwise. The closing parenthesis is put after the last
  packed line once the packing is done. So every packed line, and every output line
  after the first other than the last, is at most as long as the width unless it
  consists of a single value.
\<close>

theorem greedy_packing:
  assumes "get_enum_values declaration = v0 # v1 # vs"
  shows "(let tokens = enum_tokens (v1 # vs);
              packed = greedy_lines w (hd tokens) (tl tokens)
          in format_enum declaration w =
               (''enum('' @ v0 @ '','') # butlast packed @ [last packed @ '')'']
           \<and> (\<forall>l\<in>set packed. int (length l) \<le> w \<or> l \<in> set tokens)
           \<and> (\<forall>l\<in>set (butlast (tl (format_enum declaration w))).
                 int (length l) \<le> w \<or> l \<in> set tokens))"
proof -
  let ?tokens = "enum_tokens (v1 # vs)"
  let ?packed = "greedy_lines w (hd ?tokens) (tl ?tokens)"
  have ne: "?tokens \<noteq> []" by (simp add: enum_tokens_def)
  have f: "format_enum declaration w =
      (''enum('' @ v0 @ '','') # butlast ?packed @ [last ?packed @ '')'']"
    by (rule format_enum_greedy [OF assms])
  have b: "int (length l) \<le> w \<or> l \<in> set ?tokens" if "l \<in> set ?packed" for l
  proof -
    from greedy_lines_bound [OF that]
    have "int (length l) \<le> w \<or> l \<in> set (hd ?tokens # tl ?tokens)" by auto
    with ne show ?thesis by simp
  qed
  have t: "butlast (tl (format_enum declaration w)) = butlast ?packed"
    unfolding f by (simp add: butlast_append)
  have c: "int (length l) \<le> w \<or> l \<in> set ?tokens"
    if "l \<in> set (butlast (tl (format_enum declaration w)))" for l
    using that b unfolding t by (auto dest: in_set_butlastD)
  show ?thesis
    unfolding Let_def using f b c by blast
qed

theorem closing_parenthesis_overflows:
  "format_enum ''enum('a','b','c')'' 8 = [''enum('a','', quote # ''b', 'c')'']
   \<and> int (length (quote # ''b', 'c')'')) = 9
   \<and> \<not> (int (length (quote # ''b', 'c')'')) \<le> 8)
   \<and> findall_quoted (quote # ''b', 'c')'') = [[quote, CHR ''b'', quote], [quote, CHR ''c'', quote]]"
  by code_simp

theorem greedy_packing_witness:
  "get_enum_values ''enum('aa','bb','cc','dd')'' =
     [quote # ''aa'' @ [quote], quote # ''bb'' @ [quote], quote # ''cc'' @ [quote],
      quote # ''dd'' @ [quote]]
   \<and> format_enum ''enum('aa','bb','cc','dd')'' 10 =
       [''enum('aa','', quote # ''bb','', quote # ''cc', 'dd')'']
   \<and> butlast (tl (format_enum ''enum('aa','bb','cc','dd')'' 10)) = [quote # ''bb','']
   \<and> int (length (quote # ''bb','')) \<le> 10"
proof -
  have gv: "get_enum_values ''enum('aa','bb','cc','dd')'' =
     (quote # ''aa'' @ [quote]) # (quote # ''bb'' @ [quote])
       # [quote # ''cc'' @ [quote], quote # ''dd'' @ [quote]]"
    by code_simp
  have pk: "greedy_lines 10
        (hd (enum_tokens ((quote # ''bb'' @ [quote]) # [quote # ''cc'' @ [quote], quote # ''dd'' @ [quote]])))
        (tl (enum_tokens ((quote # ''bb'' @ [quote]) # [quote # ''cc'' @ [quote], quote # ''dd'' @ [quote]])))
      = [quote # ''bb','', quote # ''cc', 'dd'' @ [quote]]"
    by code_simp
  have f: "format_enum ''enum('aa','bb','cc','dd')'' 10 =
       [''enum('aa','', quote # ''bb','', quote # ''cc', 'dd')'']"
    using greedy_packing [OF gv, of 10] unfolding Let_def pk by simp
  show ?thesis
    using gv f by simp
qed

end
